theory Spec2Isabelle
  imports Main "HOL-Library.Word"
begin

unbundle bit_operations_syntax

section \<open>Data\<close>

text \<open>
  \<open>common.Hash\<close> is a 32-byte digest and header numbers travel through the store as
  \<open>uint64\<close>. Byte strings of equal length compare as the big-endian numbers they
  spell, so the unsigned order of the words is the byte order of the keys.
\<close>

type_synonym hash = "256 word"
type_synonym uint64 = "64 word"

text \<open>
  Modelled from the spec: \<open>types.Header\<close> is declared outside the sources. A header is
  identified by a content hash and a number and carries metadata this subsystem does not
  interpret. \<open>Number\<close> is the value \<open>header.Number.Uint64()\<close> the store indexes by;
  \<open>Extra\<close> stands for all the remaining content. The digest \<open>header.Hash()\<close> is a
  function of the content: the operations that need it take it as the parameter
  \<open>hashOf\<close>. A header handed to a write is a value, that is a non-\<open>nil\<close> pointer.
\<close>

record Header =
  Number :: uint64
  Extra :: nat

type_synonym header_key = "uint64 \<times> hash"

text \<open>
  Modelled from the spec: the Header Store (package \<open>rawdb\<close> over an in-memory
  \<open>ethdb.Database\<close>) is not among the sources. The spec describes an ordered-by-number
  keyed store that maps a hash to a header and to a number, with a head pointer, over an
  ordered byte-addressable store. The three kinds of entry are kept apart:
  \<open>headerTable\<close> holds the headers under the key (number, hash) in ascending key order,
  \<open>numberTable\<close> is the index from hash to number, \<open>lastHeader\<close> is the head pointer.
\<close>

record Database =
  headerTable :: "(header_key \<times> Header) list"
  numberTable :: "hash \<Rightarrow> uint64 option"
  lastHeader :: "hash option"

text \<open>
  Modelled from the spec: \<open>event.Feed\<close> is declared outside the sources. The
  Notification Channel is a multi-subscriber feed; \<open>subscribers\<close> are the registered
  channels and \<open>delivered\<close> is the log of (channel, header) events sent so far.
\<close>

record Feed =
  subscribers :: "nat list"
  delivered :: "(nat \<times> Header) list"

record PandoraPendingHeaderContainer =
  headerContainer :: Database
  pndHeaderFeed :: Feed

section \<open>Header Store\<close>

definition key_less :: "header_key \<Rightarrow> header_key \<Rightarrow> bool" where
  "key_less a b = (fst a < fst b \<or> (fst a = fst b \<and> snd a < snd b))"

text \<open>
  Modelled from the spec: \<open>Put\<close> on the ordered store inserts or overwrites the entry of
  a key and keeps the keys ascending.
\<close>

fun table_put :: "header_key \<Rightarrow> Header \<Rightarrow> (header_key \<times> Header) list \<Rightarrow> (header_key \<times> Header) list" where
  "table_put k v [] = [(k, v)]"
| "table_put k v ((k', v') # rest) =
     (if key_less k k' then (k, v) # (k', v') # rest
      else if k = k' then (k, v) # rest
      else (k', v') # table_put k v rest)"

text \<open>Modelled from the spec: \<open>rawdb.NewMemoryDatabase\<close>, the empty store.\<close>

definition NewMemoryDatabase :: Database where
  "NewMemoryDatabase = \<lparr>headerTable = [], numberTable = (\<lambda>_. None), lastHeader = None\<rparr>"

text \<open>
  Modelled from the spec: \<open>rawdb.WriteHeader\<close> inserts or overwrites the header and
  updates the index from hash to number.
\<close>

definition rawdb_WriteHeader :: "(Header \<Rightarrow> hash) \<Rightarrow> Database \<Rightarrow> Header \<Rightarrow> Database" where
  "rawdb_WriteHeader hashOf db header =
     db\<lparr>numberTable := (numberTable db)(hashOf header \<mapsto> Number header),
        headerTable := table_put (Number header, hashOf header) header (headerTable db)\<rparr>"

text \<open>Modelled from the spec: \<open>rawdb.WriteHeadHeaderHash\<close> sets the head pointer.\<close>

definition WriteHeadHeaderHash :: "Database \<Rightarrow> hash \<Rightarrow> Database" where
  "WriteHeadHeaderHash db h = db\<lparr>lastHeader := Some h\<rparr>"

text \<open>
  Modelled from the spec: \<open>rawdb.ReadHeaderNumber\<close> is the point lookup \<open>NumberOf\<close>;
  absent (\<open>nil\<close>) is \<open>None\<close>.
\<close>

definition ReadHeaderNumber :: "Database \<Rightarrow> hash \<Rightarrow> uint64 option" where
  "ReadHeaderNumber db h = numberTable db h"

text \<open>
  Modelled from the spec: \<open>rawdb.ReadHeadHeaderHash\<close> is \<open>Head\<close>. Its result is a
  \<open>common.Hash\<close> value that \<open>ReadHeaderSince\<close> passes straight on to
  \<open>ReadHeaderNumber\<close>, so an absent head reads as the zero hash.
\<close>

definition ReadHeadHeaderHash :: "Database \<Rightarrow> hash" where
  "ReadHeadHeaderHash db = (case lastHeader db of None \<Rightarrow> 0 | Some h \<Rightarrow> h)"

text \<open>
  Modelled from the spec: \<open>rawdb.ReadAllHashes\<close> is the internal hash enumeration for a
  number, in key order.
\<close>

definition ReadAllHashes :: "Database \<Rightarrow> uint64 \<Rightarrow> hash list" where
  "ReadAllHashes db n = map snd (filter (\<lambda>k. fst k = n) (map fst (headerTable db)))"

text \<open>
  Modelled from the spec: \<open>rawdb.ReadHeader\<close> reads the header stored under a hash and
  a number; absent (\<open>nil\<close>) is \<open>None\<close>.
\<close>

definition ReadHeader :: "Database \<Rightarrow> hash \<Rightarrow> uint64 \<Rightarrow> Header option" where
  "ReadHeader db h n = map_of (headerTable db) (n, h)"

text \<open>
  Modelled from the spec: \<open>NewIterator([]byte("h"), nil)\<close> is \<open>Iterate\<close>: the keys of
  the stored headers, each once, in key order (the container writes no other key under
  that prefix). \<open>common.BytesToHash\<close> keeps the last 32 bytes of such a key, which are
  the hash.
\<close>

definition NewIterator :: "Database \<Rightarrow> header_key list" where
  "NewIterator db = map fst (headerTable db)"

definition BytesToHash :: "header_key \<Rightarrow> hash" where
  "BytesToHash key = snd key"

section \<open>Pending Header Container\<close>

definition NewFeed :: Feed where
  "NewFeed = \<lparr>subscribers = [], delivered = []\<rparr>"

definition NewPandoraPendingHeaderContainer :: PandoraPendingHeaderContainer where
  "NewPandoraPendingHeaderContainer =
     \<lparr>headerContainer = NewMemoryDatabase, pndHeaderFeed = NewFeed\<rparr>"

definition WriteHeader ::
  "(Header \<Rightarrow> hash) \<Rightarrow> PandoraPendingHeaderContainer \<Rightarrow> Header \<Rightarrow> PandoraPendingHeaderContainer" where
  "WriteHeader hashOf container header =
     (let db1 = rawdb_WriteHeader hashOf (headerContainer container) header;
          db2 = WriteHeadHeaderHash db1 (hashOf header)
      in container\<lparr>headerContainer := db2\<rparr>)"

fun WriteHeaderBatch ::
  "(Header \<Rightarrow> hash) \<Rightarrow> PandoraPendingHeaderContainer \<Rightarrow> Header list \<Rightarrow> PandoraPendingHeaderContainer" where
  "WriteHeaderBatch hashOf container [] = container"
| "WriteHeaderBatch hashOf container (header # headers) =
     WriteHeaderBatch hashOf (WriteHeader hashOf container header) headers"

definition readHeader :: "PandoraPendingHeaderContainer \<Rightarrow> uint64 \<Rightarrow> Header option" where
  "readHeader container headerNumber =
     (let hashes = ReadAllHashes (headerContainer container) headerNumber
      in if length hashes = 0 then None
         else ReadHeader (headerContainer container) (hd hashes) headerNumber)"

text \<open>
  The loop of \<open>readAllHeaders\<close> over the iterator. A returned slice holds pointers:
  \<open>None\<close> is a \<open>nil\<close> element, which \<open>append\<close> stores like any other.
\<close>

fun readAllHeaders_loop ::
  "PandoraPendingHeaderContainer \<Rightarrow> header_key list \<Rightarrow> Header option list \<Rightarrow> Header option list" where
  "readAllHeaders_loop container [] headers = headers"
| "readAllHeaders_loop container (key # it) headers =
     (let headerHash = BytesToHash key;
          headerNumber = ReadHeaderNumber (headerContainer container) headerHash
      in case headerNumber of
           None \<Rightarrow> headers
         | Some n \<Rightarrow>
             readAllHeaders_loop container it
               (headers @ [ReadHeader (headerContainer container) headerHash n]))"

definition readAllHeaders :: "PandoraPendingHeaderContainer \<Rightarrow> Header option list" where
  "readAllHeaders container =
     readAllHeaders_loop container (NewIterator (headerContainer container)) []"

text \<open>
  The counting loop of \<open>ReadHeaderSince\<close>: \<open>i\<close> is a \<open>uint64\<close> and \<open>i++\<close> wraps, so
  the loop need not end; not returning is the value \<open>None\<close>.
\<close>

partial_function (option) ReadHeaderSince_loop ::
  "PandoraPendingHeaderContainer \<Rightarrow> uint64 \<Rightarrow> uint64 \<Rightarrow> Header option list \<Rightarrow> Header option list option" where
  "ReadHeaderSince_loop container i lastHeaderNumber headers =
     (if i \<le> lastHeaderNumber
      then ReadHeaderSince_loop container (i + 1) lastHeaderNumber
             (case readHeader container i of
                None \<Rightarrow> headers
              | Some header \<Rightarrow> headers @ [Some header])
      else Some headers)"

declare ReadHeaderSince_loop.simps [code]

definition ReadHeaderSince ::
  "PandoraPendingHeaderContainer \<Rightarrow> hash \<Rightarrow> Header option list option" where
  "ReadHeaderSince container from =
     (let fromHeaderNumber = ReadHeaderNumber (headerContainer container) from;
          lastHeaderNumber = ReadHeaderNumber (headerContainer container)
                               (ReadHeadHeaderHash (headerContainer container))
      in case fromHeaderNumber of
           None \<Rightarrow> Some (readAllHeaders container)
         | Some k \<Rightarrow>
             (case lastHeaderNumber of
                None \<Rightarrow> Some []
              | Some n \<Rightarrow> ReadHeaderSince_loop container k n []))"

section \<open>Confirmation Exchange\<close>

text \<open>The \<open>iota\<close> constants of \<open>Status\<close>, an integer type.\<close>

type_synonym Status = int

definition Pending :: Status where "Pending = 0"
definition Verified :: Status where "Verified = 1"
definition Invalid :: Status where "Invalid = 2"

definition MockedHashInvalid :: string where
  "MockedHashInvalid = ''0xc9a190eb52c18df5ffcb1d817214ecb08f025f8583805cd12064d30e3f9bd9d5''"

definition MockedHashPending :: string where
  "MockedHashPending = ''0xa99c69a301564970956edd897ff0590f4c0f1031daa464ded655af65ad0906df''"

record BlockHash =
  Slot :: uint64
  Hash :: hash

record BlockStatus = BlockHash +
  Status :: Status

text \<open>
  Modelled from the spec: \<open>common.Hash.String\<close> is declared outside the sources; it is
  the canonical hex form of the digest, \<open>0x\<close> followed by the 64 lower-case hex digits
  of the 32 bytes, most significant first.
\<close>

definition hexdigit :: "nat \<Rightarrow> char" where
  "hexdigit n = ''0123456789abcdef'' ! (n mod 16)"

definition Hash_String :: "hash \<Rightarrow> string" where
  "Hash_String h =
     ''0x'' @ map (\<lambda>i. hexdigit (unat (drop_bit (4 * i) h AND 15))) (rev [0..<64])"

datatype error = Errorf string | NilPointerDereference

text \<open>
  The \<open>range\<close> loop of \<open>ConfirmPanBlockHashes\<close>. The request holds pointers; reading a
  field through a \<open>nil\<close> one panics.
\<close>

fun ConfirmPanBlockHashes_loop ::
  "BlockHash option list \<Rightarrow> BlockStatus list \<Rightarrow> error + BlockStatus list" where
  "ConfirmPanBlockHashes_loop [] response = Inr response"
| "ConfirmPanBlockHashes_loop (None # request) response = Inl NilPointerDereference"
| "ConfirmPanBlockHashes_loop (Some blockRequest # request) response =
     (let status0 = Verified;
          status1 = (if MockedHashInvalid = Hash_String (Hash blockRequest)
                     then Invalid else status0);
          status2 = (if MockedHashPending = Hash_String (Hash blockRequest)
                     then Pending else status1)
      in ConfirmPanBlockHashes_loop request
           (response @ [\<lparr>Slot = Slot blockRequest, Hash = Hash blockRequest,
                          Status = status2\<rparr>]))"

definition ConfirmPanBlockHashes :: "BlockHash option list \<Rightarrow> error + BlockStatus list" where
  "ConfirmPanBlockHashes request =
     (if length request < 1 then Inl (Errorf ''request has empty slice'')
      else ConfirmPanBlockHashes_loop request [])"

text \<open>
  Modelled from the spec: the client method \<open>OrcClient.GetConfirmedPanBlockHashes\<close>, which
  the test calls, is not among the sources. The exchange distinguishes an input error, a
  transport or protocol error and success. An empty request is rejected with the input
  error \<open>empty request\<close> and is never sent over the wire. Any other request is sent in one
  synchronous call; the call may fail, success carries exactly one status per request
  item, and a short or missing response is an error, not a partial success. \<open>call\<close> is
  the transport with the remote authority behind it; \<open>wire\<close> is the log of the requests
  sent so far.
\<close>

datatype exchange_error = InputError string | TransportError

definition GetConfirmedPanBlockHashes ::
  "(BlockHash option list \<Rightarrow> exchange_error + BlockStatus list) \<Rightarrow> BlockHash option list list \<Rightarrow>
     BlockHash option list \<Rightarrow> (exchange_error + BlockStatus list) \<times> BlockHash option list list" where
  "GetConfirmedPanBlockHashes call wire request =
     (if length request < 1 then (Inl (InputError ''empty request''), wire)
      else (case call request of
              Inl e \<Rightarrow> Inl e
            | Inr response \<Rightarrow>
                if length response = length request then Inr response else Inl TransportError,
            wire @ [request]))"

text \<open>
  The test builds its request with \<open>common.HexToHash(MockedHashInvalid)\<close> and
  \<open>common.HexToHash(MockedHashPending)\<close>: the two digests the constants spell.
\<close>

definition hashInvalid :: hash where
  "hashInvalid = 0xc9a190eb52c18df5ffcb1d817214ecb08f025f8583805cd12064d30e3f9bd9d5"

definition hashPending :: hash where
  "hashPending = 0xa99c69a301564970956edd897ff0590f4c0f1031daa464ded655af65ad0906df"

text \<open>
  The item one round of the loop appends for a request item, with the two string
  comparisons decided on the digest (see \<open>ConfirmPanBlockHashes_loop_Some\<close> below).
\<close>

definition answer :: "BlockHash \<Rightarrow> BlockStatus" where
  "answer b = \<lparr>Slot = Slot b, Hash = Hash b,
     Status = (if Hash b = hashPending then Pending
               else if Hash b = hashInvalid then Invalid else Verified)\<rparr>"

section \<open>Notions used to state the properties\<close>

text \<open>
  Modelled from the spec: \<open>event.Feed.Send\<close> is declared outside the sources. Firing
  an event delivers it once to every current subscriber.
\<close>

definition Feed_Send :: "Feed \<Rightarrow> Header \<Rightarrow> Feed" where
  "Feed_Send feed header =
     feed\<lparr>delivered := delivered feed @ map (\<lambda>s. (s, header)) (subscribers feed)\<rparr>"

text \<open>The headers a store holds.\<close>

definition staged :: "Database \<Rightarrow> Header set" where
  "staged db = snd ` set (headerTable db)"

text \<open>
  The shape of a store that writes have built with a collision-free digest: the keys
  ascend, every header sits under its own number and hash and is indexed, and the index
  points at stored headers only.
\<close>

definition store_ok :: "(Header \<Rightarrow> hash) \<Rightarrow> Database \<Rightarrow> bool" where
  "store_ok hashOf db \<longleftrightarrow>
     sorted_wrt key_less (map fst (headerTable db)) \<and>
     (\<forall>e \<in> set (headerTable db).
        fst e = (Number (snd e), hashOf (snd e)) \<and>
        numberTable db (hashOf (snd e)) = Some (Number (snd e))) \<and>
     (\<forall>x n. numberTable db x = Some n \<longrightarrow> (n, x) \<in> fst ` set (headerTable db))"

text \<open>Every stored header's hash has a known number.\<close>

definition indexed :: "Database \<Rightarrow> bool" where
  "indexed db \<longleftrightarrow>
     (\<forall>e \<in> set (headerTable db). ReadHeaderNumber db (BytesToHash (fst e)) \<noteq> None)"

text \<open>The numbers \<open>k, k + 1, \<dots>, n\<close> of the inclusive range, ascending; empty when \<open>n < k\<close>.\<close>

definition numbers_between :: "uint64 \<Rightarrow> uint64 \<Rightarrow> uint64 list" where
  "numbers_between k n = map word_of_nat [unat k..<Suc (unat n)]"

text \<open>
  A stand-in for the digest, to run the model on concrete headers: the number in the
  low 64 bits and the rest of the content above them.
\<close>

definition sampleHash :: "Header \<Rightarrow> hash" where
  "sampleHash h = word_of_nat (Extra h) * 2 ^ 64 + ucast (Number h)"

section \<open>The hex form of a digest\<close>

lemma hexdigit_inj: "a < 16 \<Longrightarrow> b < 16 \<Longrightarrow> hexdigit a = hexdigit b \<Longrightarrow> a = b"
proof -
  have d: "distinct ''0123456789abcdef''" by simp
  assume "a < 16" "b < 16" "hexdigit a = hexdigit b"
  then show ?thesis using d
    by (simp add: hexdigit_def nth_eq_iff_index_eq)
qed

lemma nibble_less_16: "unat ((w::hash) AND 15) < 16"
proof -
  have "unat (w AND 15) \<le> unat (15 :: hash)"
    by (rule word_and_le1 [THEN word_le_nat_alt [THEN iffD1]])
  then show ?thesis by simp
qed

lemma Hash_String_inj:
  assumes "Hash_String h = Hash_String h'"
  shows "h = h'"
proof -
  have eq: "drop_bit (4 * i) h AND 15 = drop_bit (4 * i) h' AND 15" if i: "i < 64" for i
  proof -
    from assms have "map (\<lambda>i. hexdigit (unat (drop_bit (4 * i) h AND 15))) (rev [0..<64])
        = map (\<lambda>i. hexdigit (unat (drop_bit (4 * i) h' AND 15))) (rev [0..<64])"
      unfolding Hash_String_def by simp
    then have "\<forall>j \<in> set (rev [0..<64]).
        hexdigit (unat (drop_bit (4 * j) h AND 15)) = hexdigit (unat (drop_bit (4 * j) h' AND 15))"
      by (simp only: map_eq_conv)
    with i have "hexdigit (unat (drop_bit (4 * i) h AND 15))
        = hexdigit (unat (drop_bit (4 * i) h' AND 15))"
      by simp
    then have "unat (drop_bit (4 * i) h AND 15) = unat (drop_bit (4 * i) h' AND 15)"
      using hexdigit_inj nibble_less_16 by blast
    then show ?thesis
      by (simp add: word_unat_eq_iff)
  qed
  show ?thesis
  proof (rule bit_eqI)
    fix n assume "possible_bit TYPE(hash) n"
    then have n: "n < 256" by (simp add: possible_bit_def)
    then have i: "n div 4 < 64" by simp
    have m: "n mod 4 < 4" "n mod 4 < 256" by simp_all
    have fifteen: "(15::hash) = mask 4" by (simp add: mask_eq_exp_minus_1)
    have "bit h n = bit (drop_bit (4 * (n div 4)) h AND 15) (n mod 4)"
      using m by (simp add: fifteen bit_simps)
    also have "\<dots> = bit (drop_bit (4 * (n div 4)) h' AND 15) (n mod 4)"
      using eq [OF i] by simp
    also have "\<dots> = bit h' n"
      using m by (simp add: fifteen bit_simps)
    finally show "bit h n = bit h' n" .
  qed
qed

lemma Hash_String_hashInvalid: "Hash_String hashInvalid = MockedHashInvalid"
  by code_simp

lemma Hash_String_hashPending: "Hash_String hashPending = MockedHashPending"
  by code_simp

lemma MockedHashInvalid_iff: "MockedHashInvalid = Hash_String h \<longleftrightarrow> h = hashInvalid"
  using Hash_String_inj [of h hashInvalid] Hash_String_hashInvalid by auto

lemma MockedHashPending_iff: "MockedHashPending = Hash_String h \<longleftrightarrow> h = hashPending"
  using Hash_String_inj [of h hashPending] Hash_String_hashPending by auto

lemma hashInvalid_neq_hashPending: "hashInvalid \<noteq> hashPending"
  by (simp add: hashInvalid_def hashPending_def)

section \<open>Confirmation Exchange: the mock authority\<close>

lemma ConfirmPanBlockHashes_loop_Some:
  "ConfirmPanBlockHashes_loop (Some b # request) response =
     ConfirmPanBlockHashes_loop request (response @ [answer b])"
  by (simp add: Let_def answer_def MockedHashInvalid_iff MockedHashPending_iff)

lemma ConfirmPanBlockHashes_loop_Inr:
  "ConfirmPanBlockHashes_loop request response = Inr out \<Longrightarrow>
     \<exists>bs. request = map Some bs \<and> out = response @ map answer bs"
proof (induction request arbitrary: response)
  case Nil
  then show ?case by simp
next
  case (Cons r request)
  show ?case
  proof (cases r)
    case None
    with Cons.prems show ?thesis by simp
  next
    case (Some b)
    with Cons.prems have "ConfirmPanBlockHashes_loop request (response @ [answer b]) = Inr out"
      by (simp only: ConfirmPanBlockHashes_loop_Some)
    from Cons.IH [OF this] obtain bs where bs: "request = map Some bs"
      "out = (response @ [answer b]) @ map answer bs" by blast
    then have "r # request = map Some (b # bs) \<and> out = response @ map answer (b # bs)"
      using Some by simp
    then show ?thesis by (rule exI)
  qed
qed

lemma ConfirmPanBlockHashes_loop_total:
  "ConfirmPanBlockHashes_loop (map Some bs) response = Inr (response @ map answer bs)"
  by (induction bs arbitrary: response)
     (simp_all add: ConfirmPanBlockHashes_loop_Some del: ConfirmPanBlockHashes_loop.simps(3))

lemma ConfirmPanBlockHashes_Inr:
  assumes "ConfirmPanBlockHashes request = Inr response"
  shows "\<exists>bs. request = map Some bs \<and> response = map answer bs"
proof -
  from assms have "ConfirmPanBlockHashes_loop request [] = Inr response"
    by (simp add: ConfirmPanBlockHashes_def split: if_splits)
  then show ?thesis
    using ConfirmPanBlockHashes_loop_Inr by fastforce
qed

text \<open>
  C6. A request without a \<open>nil\<close> item succeeds, and whenever a call on a non-empty
  request succeeds the response is as long as the request, its i-th item carries the
  hash and the slot of the i-th request item, and its status is one of Pending,
  Verified and Invalid.
\<close>

theorem ConfirmPanBlockHashes_positional:
  assumes "request \<noteq> []"
  shows "((\<forall>r \<in> set request. r \<noteq> None) \<longrightarrow>
            (\<exists>response. ConfirmPanBlockHashes request = Inr response))
    \<and> (\<forall>response. ConfirmPanBlockHashes request = Inr response \<longrightarrow>
          length response = length request \<and>
          (\<forall>i < length request. \<exists>b. request ! i = Some b \<and>
              Hash (response ! i) = Hash b \<and> Slot (response ! i) = Slot b \<and>
              Status (response ! i) \<in> {Pending, Verified, Invalid}))"
proof (intro conjI impI allI)
  assume "\<forall>r \<in> set request. r \<noteq> None"
  then have "request = map Some (map the request)"
    by (simp add: map_idI)
  then obtain bs where "request = map Some bs" ..
  then show "\<exists>response. ConfirmPanBlockHashes request = Inr response"
    using assms by (simp add: ConfirmPanBlockHashes_def ConfirmPanBlockHashes_loop_total)
next
  fix response assume "ConfirmPanBlockHashes request = Inr response"
  then obtain bs where bs: "request = map Some bs" "response = map answer bs"
    using ConfirmPanBlockHashes_Inr by blast
  show "length response = length request" using bs by simp
  fix i assume "i < length request"
  then have "i < length bs" using bs by simp
  then have "request ! i = Some (bs ! i)" "response ! i = answer (bs ! i)"
    using bs by simp_all
  then show "\<exists>b. request ! i = Some b \<and>
              Hash (response ! i) = Hash b \<and> Slot (response ! i) = Slot b \<and>
              Status (response ! i) \<in> {Pending, Verified, Invalid}"
    by (simp add: answer_def)
qed

theorem ConfirmPanBlockHashes_positional_witness:
  "[Some \<lparr>Slot = 1, Hash = hashInvalid\<rparr>, Some \<lparr>Slot = 2, Hash = 7\<rparr>] \<noteq> []
   \<and> ConfirmPanBlockHashes [Some \<lparr>Slot = 1, Hash = hashInvalid\<rparr>, Some \<lparr>Slot = 2, Hash = 7\<rparr>]
       = Inr [\<lparr>Slot = 1, Hash = hashInvalid, Status = Invalid\<rparr>,
              \<lparr>Slot = 2, Hash = 7, Status = Verified\<rparr>]
   \<and> length [\<lparr>Slot = 1, Hash = hashInvalid, Status = Invalid\<rparr>,
             \<lparr>Slot = 2, Hash = 7, Status = Verified\<rparr>]
       = length [Some \<lparr>Slot = 1, Hash = hashInvalid\<rparr>, Some \<lparr>Slot = 2, Hash = 7\<rparr>]"
proof -
  have ne: "[Some \<lparr>Slot = 1, Hash = hashInvalid\<rparr>, Some \<lparr>Slot = 2, Hash = 7\<rparr>] \<noteq> []"
    by simp
  have run: "ConfirmPanBlockHashes
       [Some \<lparr>Slot = 1, Hash = hashInvalid\<rparr>, Some \<lparr>Slot = 2, Hash = 7\<rparr>]
       = Inr [\<lparr>Slot = 1, Hash = hashInvalid, Status = Invalid\<rparr>,
              \<lparr>Slot = 2, Hash = 7, Status = Verified\<rparr>]"
    by code_simp
  show ?thesis using ConfirmPanBlockHashes_positional [OF ne] run by simp
qed

lemma ConfirmPanBlockHashes_empty:
  "ConfirmPanBlockHashes [] = Inl (Errorf ''request has empty slice'')"
  by (simp add: ConfirmPanBlockHashes_def)

text \<open>
  C7. The exchange called with an empty request fails with the input error, produces no
  status and performs no network call: the wire is left as it was, whatever the transport.
  The wire stays untouched for the empty request only; any other request is sent, once.
  The handler of the mock authority rejects an empty request as well.
\<close>

theorem GetConfirmedPanBlockHashes_empty_request:
  "GetConfirmedPanBlockHashes call wire [] = (Inl (InputError ''empty request''), wire)
   \<and> (snd (GetConfirmedPanBlockHashes call wire request) = wire \<longleftrightarrow> request = [])
   \<and> (request \<noteq> [] \<longrightarrow> snd (GetConfirmedPanBlockHashes call wire request) = wire @ [request])
   \<and> ConfirmPanBlockHashes [] = Inl (Errorf ''request has empty slice'')"
  by (simp add: GetConfirmedPanBlockHashes_def ConfirmPanBlockHashes_empty)

theorem GetConfirmedPanBlockHashes_empty_request_witness:
  "[Some \<lparr>Slot = 1, Hash = hashInvalid\<rparr>] \<noteq> []
   \<and> GetConfirmedPanBlockHashes
        (\<lambda>request. case ConfirmPanBlockHashes request of
                      Inl e \<Rightarrow> Inl TransportError | Inr response \<Rightarrow> Inr response)
        [] [Some \<lparr>Slot = 1, Hash = hashInvalid\<rparr>]
      = (Inr [\<lparr>Slot = 1, Hash = hashInvalid, Status = Invalid\<rparr>],
         [[Some \<lparr>Slot = 1, Hash = hashInvalid\<rparr>]])
   \<and> GetConfirmedPanBlockHashes
        (\<lambda>request. case ConfirmPanBlockHashes request of
                      Inl e \<Rightarrow> Inl TransportError | Inr response \<Rightarrow> Inr response)
        [] []
      = (Inl (InputError ''empty request''), [])"
proof -
  have ne: "[Some \<lparr>Slot = 1, Hash = hashInvalid\<rparr>] \<noteq> []" by simp
  have run: "ConfirmPanBlockHashes [Some \<lparr>Slot = 1, Hash = hashInvalid\<rparr>]
      = Inr [\<lparr>Slot = 1, Hash = hashInvalid, Status = Invalid\<rparr>]"
    by code_simp
  from GetConfirmedPanBlockHashes_empty_request
    [of "\<lambda>request. case ConfirmPanBlockHashes request of
                      Inl e \<Rightarrow> Inl TransportError | Inr response \<Rightarrow> Inr response"
        "[]" "[Some \<lparr>Slot = 1, Hash = hashInvalid\<rparr>]"]
  show ?thesis using ne run by (simp add: GetConfirmedPanBlockHashes_def)
qed

text \<open>
  C8. In every successful call the item for the known-invalid digest is answered
  Invalid, the item for the known-pending digest Pending and any other Verified; the
  request of the test, (invalid, slot 1) and (pending, slot 2), is answered
  (invalid, 1, Invalid) and (pending, 2, Pending).
\<close>

theorem ConfirmPanBlockHashes_reference_policy:
  "(\<forall>i < length request. \<forall>b.
       ConfirmPanBlockHashes request = Inr response \<longrightarrow> request ! i = Some b \<longrightarrow>
         response ! i = \<lparr>Slot = Slot b, Hash = Hash b,
            Status = (if Hash b = hashInvalid then Invalid
                      else if Hash b = hashPending then Pending else Verified)\<rparr>)
   \<and> ConfirmPanBlockHashes
        [Some \<lparr>Slot = 1, Hash = hashInvalid\<rparr>, Some \<lparr>Slot = 2, Hash = hashPending\<rparr>]
      = Inr [\<lparr>Slot = 1, Hash = hashInvalid, Status = Invalid\<rparr>,
             \<lparr>Slot = 2, Hash = hashPending, Status = Pending\<rparr>]"
proof (intro conjI allI impI)
  fix i b
  assume i: "i < length request" and ok: "ConfirmPanBlockHashes request = Inr response"
    and b: "request ! i = Some b"
  from ok obtain bs where bs: "request = map Some bs" "response = map answer bs"
    using ConfirmPanBlockHashes_Inr by blast
  with i b have "bs ! i = b" "response ! i = answer (bs ! i)" by simp_all
  then show "response ! i = \<lparr>Slot = Slot b, Hash = Hash b,
            Status = (if Hash b = hashInvalid then Invalid
                      else if Hash b = hashPending then Pending else Verified)\<rparr>"
    using hashInvalid_neq_hashPending by (simp add: answer_def)
next
  have "ConfirmPanBlockHashes
        (map Some [\<lparr>Slot = 1, Hash = hashInvalid\<rparr>, \<lparr>Slot = 2, Hash = hashPending\<rparr>])
      = Inr (map answer [\<lparr>Slot = 1, Hash = hashInvalid\<rparr>, \<lparr>Slot = 2, Hash = hashPending\<rparr>])"
    unfolding ConfirmPanBlockHashes_def ConfirmPanBlockHashes_loop_total by simp
  then show "ConfirmPanBlockHashes
        [Some \<lparr>Slot = 1, Hash = hashInvalid\<rparr>, Some \<lparr>Slot = 2, Hash = hashPending\<rparr>]
      = Inr [\<lparr>Slot = 1, Hash = hashInvalid, Status = Invalid\<rparr>,
             \<lparr>Slot = 2, Hash = hashPending, Status = Pending\<rparr>]"
    using hashInvalid_neq_hashPending by (simp add: answer_def)
qed

theorem ConfirmPanBlockHashes_reference_policy_witness:
  "(2::nat) < length [Some \<lparr>Slot = 1, Hash = hashInvalid\<rparr>, Some \<lparr>Slot = 2, Hash = hashPending\<rparr>,
                      Some \<lparr>Slot = 3, Hash = 7\<rparr>]
   \<and> ConfirmPanBlockHashes
        [Some \<lparr>Slot = 1, Hash = hashInvalid\<rparr>, Some \<lparr>Slot = 2, Hash = hashPending\<rparr>,
         Some \<lparr>Slot = 3, Hash = 7\<rparr>]
      = Inr [\<lparr>Slot = 1, Hash = hashInvalid, Status = Invalid\<rparr>,
             \<lparr>Slot = 2, Hash = hashPending, Status = Pending\<rparr>,
             \<lparr>Slot = 3, Hash = 7, Status = Verified\<rparr>]
   \<and> [\<lparr>Slot = 1, Hash = hashInvalid, Status = Invalid\<rparr>,
       \<lparr>Slot = 2, Hash = hashPending, Status = Pending\<rparr>,
       \<lparr>Slot = 3, Hash = 7, Status = Verified\<rparr>] ! 2
      = \<lparr>Slot = 3, Hash = 7, Status = Verified\<rparr>"
proof -
  have run: "ConfirmPanBlockHashes
        [Some \<lparr>Slot = 1, Hash = hashInvalid\<rparr>, Some \<lparr>Slot = 2, Hash = hashPending\<rparr>,
         Some \<lparr>Slot = 3, Hash = 7\<rparr>]
      = Inr [\<lparr>Slot = 1, Hash = hashInvalid, Status = Invalid\<rparr>,
             \<lparr>Slot = 2, Hash = hashPending, Status = Pending\<rparr>,
             \<lparr>Slot = 3, Hash = 7, Status = Verified\<rparr>]"
    by code_simp
  have other: "(7::hash) \<noteq> hashInvalid" "(7::hash) \<noteq> hashPending"
    by (simp_all add: hashInvalid_def hashPending_def)
  from ConfirmPanBlockHashes_reference_policy
    [of "[Some \<lparr>Slot = 1, Hash = hashInvalid\<rparr>, Some \<lparr>Slot = 2, Hash = hashPending\<rparr>,
          Some \<lparr>Slot = 3, Hash = 7\<rparr>]"
        "[\<lparr>Slot = 1, Hash = hashInvalid, Status = Invalid\<rparr>,
          \<lparr>Slot = 2, Hash = hashPending, Status = Pending\<rparr>,
          \<lparr>Slot = 3, Hash = 7, Status = Verified\<rparr>]",
      THEN conjunct1, rule_format, of 2 "\<lparr>Slot = 3, Hash = 7\<rparr>"]
  show ?thesis using run other by simp
qed

section \<open>Header Store: the shape writes keep\<close>

lemma key_less_irrefl: "\<not> key_less k k"
  by (simp add: key_less_def)

lemma key_less_trans: "key_less a b \<Longrightarrow> key_less b c \<Longrightarrow> key_less a c"
  by (auto simp: key_less_def)

lemma key_less_total: "key_less a b \<or> a = b \<or> key_less b a"
  by (auto simp: key_less_def prod_eq_iff)

lemma set_table_put_keys: "set (map fst (table_put k v t)) = insert k (set (map fst t))"
proof (induction t)
  case Nil
  then show ?case by simp
next
  case (Cons e t)
  obtain k' v' where e: "e = (k', v')" by (cases e)
  show ?case using Cons.IH unfolding e by (simp add: insert_commute)
qed

lemma sorted_table_put:
  "sorted_wrt key_less (map fst t) \<Longrightarrow> sorted_wrt key_less (map fst (table_put k v t))"
proof (induction t)
  case Nil
  then show ?case by simp
next
  case (Cons e t)
  obtain k' v' where e: "e = (k', v')" by (cases e)
  from Cons.prems have tail: "sorted_wrt key_less (map fst t)"
    and head: "\<forall>x \<in> set (map fst t). key_less k' x"
    by (simp_all add: e)
  show ?case
  proof (cases "key_less k k'")
    case True
    then have "\<forall>x \<in> set (map fst t). key_less k x"
      using head key_less_trans by blast
    with True tail head show ?thesis by (simp add: e)
  next
    case False
    show ?thesis
    proof (cases "k = k'")
      case True
      with False tail head show ?thesis by (simp add: e)
    next
      case neq: False
      with False have "key_less k' k" using key_less_total by blast
      then have "\<forall>x \<in> set (map fst (table_put k v t)). key_less k' x"
        using head by (simp only: set_table_put_keys) blast
      with False neq Cons.IH [OF tail] show ?thesis by (simp add: e)
    qed
  qed
qed

lemma set_table_put:
  "sorted_wrt key_less (map fst t) \<Longrightarrow>
     set (table_put k v t) = insert (k, v) {e \<in> set t. fst e \<noteq> k}"
proof (induction t)
  case Nil
  then show ?case by simp
next
  case (Cons e t)
  obtain k' v' where e: "e = (k', v')" by (cases e)
  from Cons.prems have tail: "sorted_wrt key_less (map fst t)"
    and head: "\<forall>x \<in> set t. key_less k' (fst x)"
    by (simp_all add: e)
  show ?case
  proof (cases "key_less k k'")
    case True
    then have "\<forall>x \<in> set t. key_less k (fst x)"
      using head key_less_trans by blast
    then have "\<forall>x \<in> set t. fst x \<noteq> k" using key_less_irrefl by metis
    moreover have "k' \<noteq> k" using True key_less_irrefl by metis
    ultimately show ?thesis using True by (auto simp: e)
  next
    case False
    show ?thesis
    proof (cases "k = k'")
      case True
      then have "\<forall>x \<in> set t. fst x \<noteq> k" using head key_less_irrefl by metis
      with True False show ?thesis by (auto simp: e)
    next
      case neq: False
      with False Cons.IH [OF tail] show ?thesis by (auto simp: e)
    qed
  qed
qed

lemma distinct_keys: "sorted_wrt key_less ks \<Longrightarrow> distinct ks"
  by (induction ks) (auto simp: key_less_irrefl)

lemma store_ok_New: "store_ok hashOf NewMemoryDatabase"
  by (simp add: store_ok_def NewMemoryDatabase_def)

lemma headerTable_rawdb_WriteHeader:
  "headerTable (rawdb_WriteHeader hashOf db header)
     = table_put (Number header, hashOf header) header (headerTable db)"
  by (simp add: rawdb_WriteHeader_def)

lemma numberTable_rawdb_WriteHeader:
  "numberTable (rawdb_WriteHeader hashOf db header)
     = (numberTable db)(hashOf header \<mapsto> Number header)"
  by (simp add: rawdb_WriteHeader_def)

lemma store_ok_rawdb_WriteHeader:
  assumes ok: "store_ok hashOf db"
    and nc: "\<forall>h \<in> staged db. hashOf h = hashOf header \<longrightarrow> h = header"
  shows "store_ok hashOf (rawdb_WriteHeader hashOf db header)"
    and "staged (rawdb_WriteHeader hashOf db header) = insert header (staged db)"
proof -
  let ?k = "(Number header, hashOf header)"
  let ?db = "rawdb_WriteHeader hashOf db header"
  from ok have srt: "sorted_wrt key_less (map fst (headerTable db))"
    and ent: "\<And>e. e \<in> set (headerTable db) \<Longrightarrow>
        fst e = (Number (snd e), hashOf (snd e)) \<and>
        numberTable db (hashOf (snd e)) = Some (Number (snd e))"
    and idx: "\<And>x n. numberTable db x = Some n \<Longrightarrow> (n, x) \<in> fst ` set (headerTable db)"
    by (auto simp: store_ok_def)
  have set_new: "set (headerTable ?db) = insert (?k, header) {e \<in> set (headerTable db). fst e \<noteq> ?k}"
    by (simp only: headerTable_rawdb_WriteHeader set_table_put [OF srt])
  have same: "snd e = header" if "e \<in> set (headerTable db)" "hashOf (snd e) = hashOf header" for e
    using that nc by (auto simp: staged_def)
  have c1: "sorted_wrt key_less (map fst (headerTable ?db))"
    by (simp only: headerTable_rawdb_WriteHeader sorted_table_put [OF srt])
  have c2: "fst e = (Number (snd e), hashOf (snd e)) \<and>
        numberTable ?db (hashOf (snd e)) = Some (Number (snd e))"
    if e: "e \<in> set (headerTable ?db)" for e
  proof (cases "e = (?k, header)")
    case True
    then show ?thesis by (simp add: numberTable_rawdb_WriteHeader)
  next
    case False
    with e set_new have old: "e \<in> set (headerTable db)" by auto
    show ?thesis
    proof (cases "hashOf (snd e) = hashOf header")
      case True
      with same [OF old] ent [OF old] show ?thesis
        by (simp add: numberTable_rawdb_WriteHeader)
    next
      case False
      with ent [OF old] show ?thesis
        by (simp add: numberTable_rawdb_WriteHeader)
    qed
  qed
  have keys_new: "fst ` set (headerTable ?db) = insert ?k (fst ` set (headerTable db))"
    using set_table_put_keys [of ?k header "headerTable db"]
    by (simp add: headerTable_rawdb_WriteHeader)
  have c3: "(n, x) \<in> fst ` set (headerTable ?db)" if "numberTable ?db x = Some n" for x n
  proof (cases "x = hashOf header")
    case True
    with that have "n = Number header" by (simp add: numberTable_rawdb_WriteHeader)
    with True show ?thesis by (simp add: keys_new)
  next
    case False
    with that have "numberTable db x = Some n" by (simp add: numberTable_rawdb_WriteHeader)
    from idx [OF this] show ?thesis by (simp add: keys_new)
  qed
  show "store_ok hashOf ?db"
    unfolding store_ok_def using c1 c2 c3 by blast
  have "snd e = header" if "e \<in> set (headerTable db)" "fst e = ?k" for e
    using that ent [of e] same [of e] by simp
  then have "snd ` {e \<in> set (headerTable db). fst e \<noteq> ?k} \<union> {header} = snd ` set (headerTable db) \<union> {header}"
    by force
  then show "staged ?db = insert header (staged db)"
    by (simp add: staged_def set_new)
qed

section \<open>Pending Header Container: writes\<close>

lemma headerContainer_WriteHeader:
  "headerContainer (WriteHeader hashOf c header)
     = WriteHeadHeaderHash (rawdb_WriteHeader hashOf (headerContainer c) header) (hashOf header)"
  by (simp add: WriteHeader_def)

lemma store_ok_WriteHeadHeaderHash: "store_ok hashOf (WriteHeadHeaderHash db x) = store_ok hashOf db"
  by (simp add: store_ok_def WriteHeadHeaderHash_def)

lemma staged_WriteHeadHeaderHash: "staged (WriteHeadHeaderHash db x) = staged db"
  by (simp add: staged_def WriteHeadHeaderHash_def)

lemma store_ok_WriteHeader:
  assumes "store_ok hashOf (headerContainer c)"
    and "\<forall>h \<in> staged (headerContainer c). hashOf h = hashOf header \<longrightarrow> h = header"
  shows "store_ok hashOf (headerContainer (WriteHeader hashOf c header))"
    and "staged (headerContainer (WriteHeader hashOf c header))
          = insert header (staged (headerContainer c))"
  using store_ok_rawdb_WriteHeader [OF assms]
  by (simp_all add: headerContainer_WriteHeader store_ok_WriteHeadHeaderHash
        staged_WriteHeadHeaderHash)

lemma store_ok_WriteHeaderBatch:
  "store_ok hashOf (headerContainer c) \<Longrightarrow>
   inj_on hashOf (staged (headerContainer c) \<union> set hs) \<Longrightarrow>
     store_ok hashOf (headerContainer (WriteHeaderBatch hashOf c hs)) \<and>
     staged (headerContainer (WriteHeaderBatch hashOf c hs)) = staged (headerContainer c) \<union> set hs"
proof (induction hs arbitrary: c)
  case Nil
  then show ?case by simp
next
  case (Cons h hs)
  have nc: "\<forall>h' \<in> staged (headerContainer c). hashOf h' = hashOf h \<longrightarrow> h' = h"
    using Cons.prems(2) by (auto simp: inj_on_def)
  note step = store_ok_WriteHeader [OF Cons.prems(1) nc]
  have "inj_on hashOf (staged (headerContainer (WriteHeader hashOf c h)) \<union> set hs)"
    using Cons.prems(2) by (simp add: step(2))
  from Cons.IH [OF step(1) this] show ?case
    by (simp add: step(2))
qed

lemma staged_New: "staged (headerContainer NewPandoraPendingHeaderContainer) = {}"
  by (simp add: staged_def NewPandoraPendingHeaderContainer_def NewMemoryDatabase_def)

lemma store_ok_batch_New:
  assumes "inj_on hashOf (set hs)"
  shows "store_ok hashOf (headerContainer (WriteHeaderBatch hashOf NewPandoraPendingHeaderContainer hs))"
    and "staged (headerContainer (WriteHeaderBatch hashOf NewPandoraPendingHeaderContainer hs)) = set hs"
proof -
  have "store_ok hashOf (headerContainer NewPandoraPendingHeaderContainer)"
    by (simp add: NewPandoraPendingHeaderContainer_def store_ok_New)
  moreover have "inj_on hashOf (staged (headerContainer NewPandoraPendingHeaderContainer) \<union> set hs)"
    using assms by (simp add: staged_New)
  ultimately have "store_ok hashOf (headerContainer (WriteHeaderBatch hashOf NewPandoraPendingHeaderContainer hs)) \<and>
     staged (headerContainer (WriteHeaderBatch hashOf NewPandoraPendingHeaderContainer hs))
       = staged (headerContainer NewPandoraPendingHeaderContainer) \<union> set hs"
    by (rule store_ok_WriteHeaderBatch)
  then show "store_ok hashOf (headerContainer (WriteHeaderBatch hashOf NewPandoraPendingHeaderContainer hs))"
    and "staged (headerContainer (WriteHeaderBatch hashOf NewPandoraPendingHeaderContainer hs)) = set hs"
    by (simp_all add: staged_New)
qed

section \<open>Pending Header Container: reads\<close>

lemma store_ok_lookup:
  assumes "store_ok hashOf db" "e \<in> set (headerTable db)"
  shows "ReadHeaderNumber db (BytesToHash (fst e)) = Some (Number (snd e))"
    and "ReadHeader db (BytesToHash (fst e)) (Number (snd e)) = Some (snd e)"
proof -
  from assms have k: "fst e = (Number (snd e), hashOf (snd e))"
    and n: "numberTable db (hashOf (snd e)) = Some (Number (snd e))"
    and d: "distinct (map fst (headerTable db))"
    by (auto simp: store_ok_def distinct_keys)
  show "ReadHeaderNumber db (BytesToHash (fst e)) = Some (Number (snd e))"
    using k n by (simp add: ReadHeaderNumber_def BytesToHash_def)
  have "(fst e, snd e) \<in> set (headerTable db)" using assms(2) by simp
  from map_of_is_SomeI [OF d this]
  show "ReadHeader db (BytesToHash (fst e)) (Number (snd e)) = Some (snd e)"
    using k by (simp add: ReadHeader_def BytesToHash_def)
qed

lemma readAllHeaders_loop_ok:
  "store_ok hashOf (headerContainer c) \<Longrightarrow> set es \<subseteq> set (headerTable (headerContainer c)) \<Longrightarrow>
     readAllHeaders_loop c (map fst es) acc = acc @ map (\<lambda>e. Some (snd e)) es"
proof (induction es arbitrary: acc)
  case Nil
  then show ?case by simp
next
  case (Cons e es)
  from Cons.prems have e: "e \<in> set (headerTable (headerContainer c))"
    and es: "set es \<subseteq> set (headerTable (headerContainer c))" by simp_all
  show ?case
    using Cons.IH [OF Cons.prems(1) es] store_ok_lookup [OF Cons.prems(1) e]
    by (simp add: Let_def)
qed

lemma readAllHeaders_ok:
  assumes "store_ok hashOf (headerContainer c)"
  shows "readAllHeaders c = map Some (map snd (headerTable (headerContainer c)))"
  using readAllHeaders_loop_ok [OF assms subset_refl, of "[]"]
  by (simp add: readAllHeaders_def NewIterator_def comp_def)

lemma store_ok_distinct_headers:
  assumes "store_ok hashOf db"
  shows "distinct (map snd (headerTable db))"
proof -
  from assms have "distinct (map fst (headerTable db))"
    by (simp add: store_ok_def distinct_keys)
  moreover have "map fst (headerTable db)
      = map (\<lambda>h. (Number h, hashOf h)) (map snd (headerTable db))"
    using assms by (simp add: store_ok_def)
  ultimately show ?thesis by (simp add: distinct_map del: map_map)
qed

lemma store_ok_sorted_numbers:
  assumes "store_ok hashOf db"
  shows "sorted (map Number (map snd (headerTable db)))"
proof -
  from assms have "sorted_wrt key_less (map fst (headerTable db))"
    by (simp add: store_ok_def)
  then have "sorted_wrt (\<lambda>a b. fst a \<le> fst b) (map fst (headerTable db))"
    by (rule sorted_wrt_mono_rel [rotated]) (auto simp: key_less_def)
  then have "sorted (map (\<lambda>e. fst (fst e)) (headerTable db))"
    by (simp add: sorted_map sorted_wrt_map)
  moreover have "map (\<lambda>e. fst (fst e)) (headerTable db)
      = map (\<lambda>e. Number (snd e)) (headerTable db)"
    using assms by (auto simp: store_ok_def)
  ultimately show ?thesis by (simp add: comp_def)
qed

lemma ReadHeaderSince_loop_returns:
  "n \<noteq> - 1 \<Longrightarrow>
     ReadHeaderSince_loop c i n acc
       = Some (acc @ map Some (List.map_filter (readHeader c) (numbers_between i n)))"
proof (induction "Suc (unat n) - unat i" arbitrary: i acc)
  case 0
  then have "\<not> i \<le> n" by (simp add: word_le_nat_alt)
  moreover have "numbers_between i n = []"
    using 0 by (simp add: numbers_between_def)
  ultimately show ?case
    by (subst ReadHeaderSince_loop.simps) simp
next
  case (Suc d)
  then have le: "i \<le> n" by (simp add: word_le_nat_alt)
  with Suc.prems have "i \<noteq> - 1"
    by (metis word_n1_ge antisym)
  then have "1 + i \<noteq> 0"
    by (metis add.commute add_eq_0_iff2)
  then have next_i: "unat (i + 1) = Suc (unat i)"
    using unatSuc [of i] by (simp add: add.commute)
  have "unat i < Suc (unat n)" using le by (simp add: word_le_nat_alt)
  then have "[unat i..<Suc (unat n)] = unat i # [Suc (unat i)..<Suc (unat n)]"
    by (rule upt_conv_Cons)
  then have nb: "numbers_between i n = i # numbers_between (i + 1) n"
    by (simp add: numbers_between_def next_i del: upt_Suc)
  have "d = Suc (unat n) - unat (i + 1)" using Suc.hyps(2) next_i by simp
  from Suc.hyps(1) [OF this Suc.prems] show ?case
    using le by (subst ReadHeaderSince_loop.simps)
      (simp add: nb split: option.split)
qed

lemma ReadHeaderSince_loop_Some:
  assumes "ReadHeaderSince_loop c i n acc = Some y"
  shows "n \<noteq> - 1"
  using assms
  by (rule ReadHeaderSince_loop.raw_induct [where P = "\<lambda>c i n acc y. n \<noteq> - 1", rotated])
     (auto split: if_splits)

lemma ReadHeaderSince_loop_diverges:
  "ReadHeaderSince_loop c i (- 1) acc = None"
  using ReadHeaderSince_loop_Some [of c i "- 1" acc] by (cases "ReadHeaderSince_loop c i (- 1) acc") auto

lemma numbers_between_strict: "sorted_wrt (<) (numbers_between k n)"
proof -
  have "sorted_wrt (\<lambda>x y. (word_of_nat x :: uint64) < word_of_nat y) [unat k..<Suc (unat n)]"
  proof (rule sorted_wrt_mono_rel [OF _ sorted_wrt_upt])
    fix x y assume "x \<in> set [unat k..<Suc (unat n)]" "y \<in> set [unat k..<Suc (unat n)]" "x < y"
    moreover have "unat n < 2 ^ 64" using unsigned_less [of n] by simp
    ultimately have "x < 2 ^ 64" "y < 2 ^ 64" "x < y" by auto
    then show "(word_of_nat x :: uint64) < word_of_nat y"
      by (simp add: of_nat_word_less_iff take_bit_nat_eq_self)
  qed
  then show ?thesis by (simp add: numbers_between_def sorted_wrt_map)
qed

lemma readHeader_Some:
  assumes ok: "store_ok hashOf (headerContainer c)" and r: "readHeader c j = Some h"
  shows "Number h = j" and "h \<in> staged (headerContainer c)"
proof -
  let ?db = "headerContainer c"
  let ?hs = "ReadAllHashes ?db j"
  from r have ne: "?hs \<noteq> []" and rd: "ReadHeader ?db (hd ?hs) j = Some h"
    by (auto simp: readHeader_def Let_def split: if_splits)
  from ne have "hd ?hs \<in> set ?hs" by simp
  then obtain e where e: "e \<in> set (headerTable ?db)" "fst (fst e) = j" "snd (fst e) = hd ?hs"
    by (auto simp: ReadAllHashes_def)
  with store_ok_lookup [OF ok e(1)] have "ReadHeader ?db (hd ?hs) j = Some (snd e)" "Number (snd e) = j"
    using ok by (auto simp: store_ok_def BytesToHash_def)
  with rd e(1) show "Number h = j" and "h \<in> staged (headerContainer c)"
    by (auto simp: staged_def)
qed

lemma readHeader_None:
  assumes ok: "store_ok hashOf (headerContainer c)"
  shows "readHeader c j = None \<longleftrightarrow> (\<forall>h \<in> staged (headerContainer c). Number h \<noteq> j)"
proof
  assume none: "readHeader c j = None"
  show "\<forall>h \<in> staged (headerContainer c). Number h \<noteq> j"
  proof
    fix h assume "h \<in> staged (headerContainer c)"
    then obtain e where e: "e \<in> set (headerTable (headerContainer c))" "snd e = h"
      by (auto simp: staged_def)
    show "Number h \<noteq> j"
    proof
      assume "Number h = j"
      with e ok have "fst (fst e) = j" by (auto simp: store_ok_def)
      with e(1) have ne: "ReadAllHashes (headerContainer c) j \<noteq> []"
        by (auto simp: ReadAllHashes_def filter_empty_conv)
      then have "hd (ReadAllHashes (headerContainer c) j) \<in> set (ReadAllHashes (headerContainer c) j)"
        by simp
      then obtain e' where e': "e' \<in> set (headerTable (headerContainer c))" "fst (fst e') = j"
        "snd (fst e') = hd (ReadAllHashes (headerContainer c) j)"
        by (auto simp: ReadAllHashes_def)
      with store_ok_lookup [OF ok e'(1)] ok
      have "ReadHeader (headerContainer c) (hd (ReadAllHashes (headerContainer c) j)) j = Some (snd e')"
        by (auto simp: store_ok_def BytesToHash_def)
      with ne none show False by (simp add: readHeader_def Let_def)
    qed
  qed
next
  assume all: "\<forall>h \<in> staged (headerContainer c). Number h \<noteq> j"
  show "readHeader c j = None"
  proof (cases "readHeader c j")
    case None
    then show ?thesis .
  next
    case (Some h)
    from readHeader_Some [OF ok Some] all show ?thesis by blast
  qed
qed

lemma ReadAllHashes_sorted:
  assumes "store_ok hashOf db"
  shows "sorted (ReadAllHashes db j)"
proof -
  from assms have "sorted_wrt key_less (map fst (headerTable db))"
    by (simp add: store_ok_def)
  then have "sorted_wrt key_less (filter (\<lambda>k. fst k = j) (map fst (headerTable db)))"
    by (rule sorted_wrt_filter)
  then have "sorted_wrt (\<lambda>a b. snd a \<le> snd b) (filter (\<lambda>k. fst k = j) (map fst (headerTable db)))"
    by (rule sorted_wrt_mono_rel [rotated]) (auto simp: key_less_def)
  then show ?thesis
    by (simp add: ReadAllHashes_def sorted_map)
qed

lemma hd_sorted_le: "sorted xs \<Longrightarrow> y \<in> set xs \<Longrightarrow> hd xs \<le> (y :: 'a :: linorder)"
  by (cases xs) auto

lemma readHeader_first_in_key_order:
  assumes ok: "store_ok hashOf (headerContainer c)" and r: "readHeader c j = Some x"
    and h: "h \<in> staged (headerContainer c)" "Number h = j"
  shows "hashOf x \<le> hashOf h"
proof -
  let ?db = "headerContainer c"
  let ?hs = "ReadAllHashes ?db j"
  from r have ne: "?hs \<noteq> []" and rd: "ReadHeader ?db (hd ?hs) j = Some x"
    by (auto simp: readHeader_def Let_def split: if_splits)
  from ne have "hd ?hs \<in> set ?hs" by simp
  then obtain e where e: "e \<in> set (headerTable ?db)" "fst (fst e) = j" "snd (fst e) = hd ?hs"
    by (auto simp: ReadAllHashes_def)
  from ok e(1) have ke: "fst e = (Number (snd e), hashOf (snd e))"
    unfolding store_ok_def by blast
  with e have "Number (snd e) = j" "hashOf (snd e) = hd ?hs" by simp_all
  with store_ok_lookup(2) [OF ok e(1)] ke have "ReadHeader ?db (hd ?hs) j = Some (snd e)"
    by (simp add: BytesToHash_def)
  with rd have "snd e = x" by simp
  with \<open>hashOf (snd e) = hd ?hs\<close> have first: "hashOf x = hd ?hs" by simp
  from h(1) obtain e' where e': "e' \<in> set (headerTable ?db)" "snd e' = h"
    by (auto simp: staged_def)
  from ok e'(1) have "fst e' = (Number (snd e'), hashOf (snd e'))"
    unfolding store_ok_def by blast
  with e' h(2) have "fst e' = (j, hashOf h)" by simp
  with e'(1) have "(j, hashOf h) \<in> set (map fst (headerTable ?db))" by force
  then have "hashOf h \<in> set ?hs" by (force simp: ReadAllHashes_def)
  from hd_sorted_le [OF ReadAllHashes_sorted [OF ok] this] first show ?thesis by simp
qed

lemma map_filter_numbers:
  assumes "\<And>j h. readHeader c j = Some h \<Longrightarrow> Number h = j"
  shows "map Number (List.map_filter (readHeader c) js) = filter (\<lambda>j. readHeader c j \<noteq> None) js"
  using assms by (induction js) (auto split: option.splits)

lemma range_numbers_strict:
  assumes "store_ok hashOf (headerContainer c)"
  shows "sorted_wrt (<) (map Number (List.map_filter (readHeader c) (numbers_between k n)))"
proof -
  have "map Number (List.map_filter (readHeader c) (numbers_between k n))
      = filter (\<lambda>j. readHeader c j \<noteq> None) (numbers_between k n)"
    by (rule map_filter_numbers) (rule readHeader_Some(1) [OF assms])
  then show ?thesis
    by (simp add: sorted_wrt_filter numbers_between_strict)
qed

lemma ReadHeaderSince_absent:
  assumes "ReadHeaderNumber (headerContainer c) from = None"
  shows "ReadHeaderSince c from = Some (readAllHeaders c)"
  using assms by (simp add: ReadHeaderSince_def)

lemma ReadHeaderSince_range:
  assumes "ReadHeaderNumber (headerContainer c) from = Some k"
    and "ReadHeaderNumber (headerContainer c) (ReadHeadHeaderHash (headerContainer c)) = Some n"
    and "n \<noteq> - 1"
  shows "ReadHeaderSince c from
    = Some (map Some (List.map_filter (readHeader c) (numbers_between k n)))"
  using assms by (simp add: ReadHeaderSince_def ReadHeaderSince_loop_returns)

lemma ReadHeaderSince_ordered:
  assumes ok: "store_ok hashOf (headerContainer c)" and r: "ReadHeaderSince c from = Some ys"
  shows "\<exists>xs. ys = map Some xs \<and> sorted (map Number xs) \<and> distinct xs \<and>
           set xs \<subseteq> staged (headerContainer c) \<and>
           (ReadHeaderNumber (headerContainer c) from \<noteq> None \<longrightarrow> distinct (map Number xs))"
proof (cases "ReadHeaderNumber (headerContainer c) from")
  case None
  with r have "ys = map Some (map snd (headerTable (headerContainer c)))"
    by (simp add: ReadHeaderSince_absent readAllHeaders_ok [OF ok])
  moreover have "set (map snd (headerTable (headerContainer c))) \<subseteq> staged (headerContainer c)"
    by (simp add: staged_def)
  ultimately show ?thesis
    using None store_ok_sorted_numbers [OF ok] store_ok_distinct_headers [OF ok]
    by blast
next
  case (Some k)
  show ?thesis
  proof (cases "ReadHeaderNumber (headerContainer c) (ReadHeadHeaderHash (headerContainer c))")
    case None
    with Some r have "ys = map Some []" by (simp add: ReadHeaderSince_def)
    then show ?thesis by (intro exI [of _ "[]"]) simp
  next
    case n: (Some n)
    from r Some n have "ReadHeaderSince_loop c k n [] = Some ys"
      by (simp add: ReadHeaderSince_def)
    then have "n \<noteq> - 1" by (rule ReadHeaderSince_loop_Some)
    from ReadHeaderSince_range [OF Some n this] r
    have ys: "ys = map Some (List.map_filter (readHeader c) (numbers_between k n))" by simp
    let ?xs = "List.map_filter (readHeader c) (numbers_between k n)"
    from range_numbers_strict [OF ok, of k n]
    have sd: "sorted (map Number ?xs)" "distinct (map Number ?xs)"
      by (simp_all add: strict_sorted_iff)
    then have "distinct ?xs" by (simp add: distinct_map)
    moreover have "set ?xs \<subseteq> staged (headerContainer c)"
      using readHeader_Some(2) [OF ok]
      by (auto simp: List.map_filter_def)
    ultimately show ?thesis using ys sd by blast
  qed
qed

section \<open>Writes seen through the reads\<close>

lemma WriteHeaderBatch_append:
  "WriteHeaderBatch hashOf c (xs @ ys) = WriteHeaderBatch hashOf (WriteHeaderBatch hashOf c xs) ys"
  by (induction xs arbitrary: c) simp_all

lemma map_of_table_put: "map_of (table_put k v t) k = Some v"
  by (induction t) auto

lemma set_table_put_subset: "set (table_put k v t) \<subseteq> insert (k, v) (set t)"
proof (induction t)
  case Nil
  then show ?case by simp
next
  case (Cons e t)
  obtain k' v' where e: "e = (k', v')" by (cases e)
  show ?case using Cons.IH unfolding e by auto
qed

lemma table_put_idem: "table_put k v (table_put k v t) = table_put k v t"
  by (induction t) (auto simp: key_less_irrefl)

lemma WriteHeader_reads:
  "ReadHeaderNumber (headerContainer (WriteHeader hashOf c h)) (hashOf h) = Some (Number h)"
  "ReadHeader (headerContainer (WriteHeader hashOf c h)) (hashOf h) (Number h) = Some h"
  "ReadHeadHeaderHash (headerContainer (WriteHeader hashOf c h)) = hashOf h"
  "pndHeaderFeed (WriteHeader hashOf c h) = pndHeaderFeed c"
  by (simp_all add: WriteHeader_def rawdb_WriteHeader_def WriteHeadHeaderHash_def
        ReadHeaderNumber_def ReadHeader_def ReadHeadHeaderHash_def map_of_table_put)

lemma WriteHeader_keeps_numbers:
  "ReadHeaderNumber (headerContainer c) x \<noteq> None \<Longrightarrow>
     ReadHeaderNumber (headerContainer (WriteHeader hashOf c h)) x \<noteq> None"
  by (simp add: WriteHeader_def rawdb_WriteHeader_def WriteHeadHeaderHash_def ReadHeaderNumber_def)

lemma WriteHeaderBatch_keeps_numbers:
  "ReadHeaderNumber (headerContainer c) x \<noteq> None \<Longrightarrow>
     ReadHeaderNumber (headerContainer (WriteHeaderBatch hashOf c hs)) x \<noteq> None"
proof (induction hs arbitrary: c)
  case Nil
  then show ?case by simp
next
  case (Cons h hs)
  from Cons.prems have "ReadHeaderNumber (headerContainer (WriteHeader hashOf c h)) x \<noteq> None"
    by (rule WriteHeader_keeps_numbers)
  from Cons.IH [OF this] show ?case by simp
qed

lemma indexed_WriteHeader:
  assumes "indexed (headerContainer c)"
  shows "indexed (headerContainer (WriteHeader hashOf c h))"
proof -
  have "ReadHeaderNumber (headerContainer (WriteHeader hashOf c h)) (BytesToHash (fst e)) \<noteq> None"
    if e: "e \<in> set (headerTable (headerContainer (WriteHeader hashOf c h)))" for e
  proof -
    from e have "e \<in> set (table_put (Number h, hashOf h) h (headerTable (headerContainer c)))"
      by (simp add: WriteHeader_def rawdb_WriteHeader_def WriteHeadHeaderHash_def)
    then have "e = ((Number h, hashOf h), h) \<or> e \<in> set (headerTable (headerContainer c))"
      using set_table_put_subset by fastforce
    then show ?thesis
    proof
      assume "e = ((Number h, hashOf h), h)"
      then show ?thesis by (simp add: BytesToHash_def WriteHeader_reads(1))
    next
      assume "e \<in> set (headerTable (headerContainer c))"
      with assms have "ReadHeaderNumber (headerContainer c) (BytesToHash (fst e)) \<noteq> None"
        by (simp add: indexed_def)
      then show ?thesis by (rule WriteHeader_keeps_numbers)
    qed
  qed
  then show ?thesis by (simp add: indexed_def)
qed

lemma indexed_WriteHeaderBatch:
  "indexed (headerContainer c) \<Longrightarrow> indexed (headerContainer (WriteHeaderBatch hashOf c hs))"
  by (induction hs arbitrary: c) (simp_all add: indexed_WriteHeader)

lemma numberTable_staged:
  assumes "store_ok hashOf db" "x \<notin> hashOf ` staged db"
  shows "ReadHeaderNumber db x = None"
proof (cases "numberTable db x")
  case None
  then show ?thesis by (simp add: ReadHeaderNumber_def)
next
  case (Some n)
  with assms(1) have "(n, x) \<in> fst ` set (headerTable db)"
    unfolding store_ok_def by blast
  then obtain e where e: "e \<in> set (headerTable db)" "fst e = (n, x)" by auto
  from assms(1) e(1) have "fst e = (Number (snd e), hashOf (snd e))"
    unfolding store_ok_def by blast
  with e have "x = hashOf (snd e)" "snd e \<in> staged db"
    by (simp_all add: staged_def)
  with assms(2) show ?thesis by blast
qed

lemma ReadHeaderSince_range_numbers:
  assumes ok: "store_ok hashOf (headerContainer c)"
    and k: "ReadHeaderNumber (headerContainer c) from = Some k"
    and n: "ReadHeaderNumber (headerContainer c) (ReadHeadHeaderHash (headerContainer c)) = Some n"
    and m: "n \<noteq> - 1"
  shows "\<exists>xs. ReadHeaderSince c from = Some (map Some xs) \<and>
           set xs \<subseteq> staged (headerContainer c) \<and>
           map Number xs
             = filter (\<lambda>j. \<exists>h \<in> staged (headerContainer c). Number h = j) (numbers_between k n)"
proof -
  let ?xs = "List.map_filter (readHeader c) (numbers_between k n)"
  have "map Number ?xs = filter (\<lambda>j. readHeader c j \<noteq> None) (numbers_between k n)"
    by (rule map_filter_numbers) (rule readHeader_Some(1) [OF ok])
  also have "\<dots> = filter (\<lambda>j. \<exists>h \<in> staged (headerContainer c). Number h = j) (numbers_between k n)"
    by (rule filter_cong) (auto simp: readHeader_None [OF ok])
  finally have "map Number ?xs
      = filter (\<lambda>j. \<exists>h \<in> staged (headerContainer c). Number h = j) (numbers_between k n)" .
  moreover have "set ?xs \<subseteq> staged (headerContainer c)"
    using readHeader_Some(2) [OF ok] by (auto simp: List.map_filter_def)
  ultimately show ?thesis
    using ReadHeaderSince_range [OF k n m] by blast
qed

section \<open>The claims about the container\<close>

lemmas container_defs =
  WriteHeader_def rawdb_WriteHeader_def WriteHeadHeaderHash_def
  NewPandoraPendingHeaderContainer_def NewMemoryDatabase_def NewFeed_def ReadHeaderNumber_def
  ReadHeadHeaderHash_def ReadAllHashes_def ReadHeader_def readHeader_def readAllHeaders_def
  NewIterator_def BytesToHash_def key_less_def sampleHash_def

text \<open>
  C1. \<open>WriteHeader\<close> persists the header, indexes its number and makes it the head;
  it sends nothing: the feed, its subscribers and the events delivered so far, is left as
  it was, whatever the header and the subscribers, so no subscriber can block the write
  or make it fail.
\<close>

theorem WriteHeader_leaves_feed:
  "pndHeaderFeed (WriteHeader hashOf c h) = pndHeaderFeed c
   \<and> ReadHeader (headerContainer (WriteHeader hashOf c h)) (hashOf h) (Number h) = Some h
   \<and> ReadHeaderNumber (headerContainer (WriteHeader hashOf c h)) (hashOf h) = Some (Number h)
   \<and> ReadHeadHeaderHash (headerContainer (WriteHeader hashOf c h)) = hashOf h"
  by (simp add: WriteHeader_reads)

text \<open>
  The claim as stated fails: with one subscriber registered, \<open>WriteHeader\<close> delivers
  no event, where firing the feed would have delivered one.
\<close>

theorem WriteHeader_notification_counterexample:
  "subscribers (pndHeaderFeed (WriteHeader sampleHash
      \<lparr>headerContainer = NewMemoryDatabase,
        pndHeaderFeed = \<lparr>subscribers = [0], delivered = []\<rparr>\<rparr>
      \<lparr>Number = 1, Extra = 0\<rparr>)) = [0]
   \<and> delivered (pndHeaderFeed (WriteHeader sampleHash
      \<lparr>headerContainer = NewMemoryDatabase,
        pndHeaderFeed = \<lparr>subscribers = [0], delivered = []\<rparr>\<rparr>
      \<lparr>Number = 1, Extra = 0\<rparr>)) = []
   \<and> delivered (Feed_Send \<lparr>subscribers = [0], delivered = []\<rparr> \<lparr>Number = 1, Extra = 0\<rparr>)
      = [(0, \<lparr>Number = 1, Extra = 0\<rparr>)]"
  by (simp add: WriteHeader_def Feed_Send_def)

text \<open>
  C2. In a container built by writes, a \<open>from\<close> hash that is the hash of no staged
  header (the zero hash among them) makes \<open>ReadHeaderSince\<close> return, and the result is
  the full snapshot: every staged header, each once.
\<close>

theorem ReadHeaderSince_unresolvable_from:
  assumes "inj_on hashOf (set hs)" and "from \<notin> hashOf ` set hs"
  shows "\<exists>xs. ReadHeaderSince (WriteHeaderBatch hashOf NewPandoraPendingHeaderContainer hs) from
                = Some (map Some xs) \<and> set xs = set hs \<and> distinct xs"
proof -
  let ?c = "WriteHeaderBatch hashOf NewPandoraPendingHeaderContainer hs"
  note ok = store_ok_batch_New [OF assms(1)]
  have "ReadHeaderNumber (headerContainer ?c) from = None"
    using numberTable_staged [OF ok(1)] assms(2) by (simp add: ok(2))
  then have "ReadHeaderSince ?c from = Some (map Some (map snd (headerTable (headerContainer ?c))))"
    by (simp add: ReadHeaderSince_absent readAllHeaders_ok [OF ok(1)])
  moreover have "set (map snd (headerTable (headerContainer ?c))) = set hs"
    using ok(2) by (simp add: staged_def)
  ultimately show ?thesis
    using store_ok_distinct_headers [OF ok(1)] by blast
qed

theorem ReadHeaderSince_unresolvable_from_witness:
  "inj_on sampleHash (set [\<lparr>Number = 7, Extra = 3\<rparr>, \<lparr>Number = 5, Extra = 1\<rparr>, \<lparr>Number = 5, Extra = 2\<rparr>])
   \<and> 0 \<notin> sampleHash ` set [\<lparr>Number = 7, Extra = 3\<rparr>, \<lparr>Number = 5, Extra = 1\<rparr>, \<lparr>Number = 5, Extra = 2\<rparr>]
   \<and> ReadHeaderSince (WriteHeaderBatch sampleHash NewPandoraPendingHeaderContainer
        [\<lparr>Number = 7, Extra = 3\<rparr>, \<lparr>Number = 5, Extra = 1\<rparr>, \<lparr>Number = 5, Extra = 2\<rparr>]) 0
      = Some [Some \<lparr>Number = 5, Extra = 1\<rparr>, Some \<lparr>Number = 5, Extra = 2\<rparr>,
              Some \<lparr>Number = 7, Extra = 3\<rparr>]
   \<and> (\<exists>xs. ReadHeaderSince (WriteHeaderBatch sampleHash NewPandoraPendingHeaderContainer
        [\<lparr>Number = 7, Extra = 3\<rparr>, \<lparr>Number = 5, Extra = 1\<rparr>, \<lparr>Number = 5, Extra = 2\<rparr>]) 0
          = Some (map Some xs)
        \<and> set xs = set [\<lparr>Number = 7, Extra = 3\<rparr>, \<lparr>Number = 5, Extra = 1\<rparr>, \<lparr>Number = 5, Extra = 2\<rparr>]
        \<and> distinct xs)"
proof -
  have inj: "inj_on sampleHash
      (set [\<lparr>Number = 7, Extra = 3\<rparr>, \<lparr>Number = 5, Extra = 1\<rparr>, \<lparr>Number = 5, Extra = 2\<rparr>])"
    by (simp add: sampleHash_def)
  have zero: "0 \<notin> sampleHash `
      set [\<lparr>Number = 7, Extra = 3\<rparr>, \<lparr>Number = 5, Extra = 1\<rparr>, \<lparr>Number = 5, Extra = 2\<rparr>]"
    by (simp add: sampleHash_def)
  have run: "ReadHeaderSince (WriteHeaderBatch sampleHash NewPandoraPendingHeaderContainer
        [\<lparr>Number = 7, Extra = 3\<rparr>, \<lparr>Number = 5, Extra = 1\<rparr>, \<lparr>Number = 5, Extra = 2\<rparr>]) 0
      = Some [Some \<lparr>Number = 5, Extra = 1\<rparr>, Some \<lparr>Number = 5, Extra = 2\<rparr>,
              Some \<lparr>Number = 7, Extra = 3\<rparr>]"
    by (simp add: ReadHeaderSince_def container_defs)
  show ?thesis using ReadHeaderSince_unresolvable_from [OF inj zero] inj zero run by blast
qed

text \<open>
  C3. With \<open>from\<close> stored at number k and the head at number n, the counting loop
  reads the numbers k to n in ascending order and skips those without a header (see
  \<open>ReadHeaderSince_range\<close> and \<open>ReadHeaderSince_range_numbers\<close>), as long as n is
  below the largest \<open>uint64\<close>. With the head at 0xFFFFFFFFFFFFFFFF the test
  \<open>i <= n\<close> never fails and \<open>i++\<close> wraps: the call does not return.
\<close>

theorem ReadHeaderSince_head_at_max_number:
  "ReadHeaderSince
     (WriteHeader sampleHash NewPandoraPendingHeaderContainer
        \<lparr>Number = 0xFFFFFFFFFFFFFFFF, Extra = 0\<rparr>)
     (sampleHash \<lparr>Number = 0xFFFFFFFFFFFFFFFF, Extra = 0\<rparr>) = None"
proof -
  have m: "(0xFFFFFFFFFFFFFFFF :: uint64) = - 1" by simp
  show ?thesis
    by (simp add: ReadHeaderSince_def WriteHeader_reads ReadHeaderSince_loop_diverges m)
qed

text \<open>
  C4. On the empty container \<open>ReadHeaderSince\<close> returns the empty sequence for every
  \<open>from\<close> hash: no hash resolves there, and the full snapshot it attempts is empty.
\<close>

theorem ReadHeaderSince_empty_container: "ReadHeaderSince NewPandoraPendingHeaderContainer from = Some []"
  by (simp add: ReadHeaderSince_def NewPandoraPendingHeaderContainer_def NewMemoryDatabase_def
        ReadHeaderNumber_def readAllHeaders_def NewIterator_def)

text \<open>
  C5. In a container built by writes with a collision-free digest, when \<open>from\<close> is
  unresolvable or the head is below the largest \<open>uint64\<close>, \<open>ReadHeaderSince\<close>
  returns a sequence of staged headers that is non-decreasing in number. When \<open>from\<close>
  is unresolvable (the full snapshot) it holds every staged header. When \<open>from\<close>
  resolves (the range branch) it holds at most one header per number, and that one is
  the first in key order: no staged header of the same number has a smaller hash.
\<close>

theorem ReadHeaderSince_non_decreasing:
  assumes "inj_on hashOf (set hs)"
    and "c = WriteHeaderBatch hashOf NewPandoraPendingHeaderContainer hs"
    and "ReadHeaderNumber (headerContainer c) from = None
         \<or> ReadHeaderNumber (headerContainer c) (ReadHeadHeaderHash (headerContainer c)) \<noteq> Some (- 1)"
  shows "\<exists>xs. ReadHeaderSince c from = Some (map Some xs) \<and> sorted (map Number xs) \<and>
           set xs \<subseteq> set hs \<and>
           (ReadHeaderNumber (headerContainer c) from = None \<longrightarrow> set xs = set hs) \<and>
           (ReadHeaderNumber (headerContainer c) from \<noteq> None \<longrightarrow>
              distinct (map Number xs) \<and>
              (\<forall>x \<in> set xs. \<forall>h \<in> set hs. Number h = Number x \<longrightarrow> hashOf x \<le> hashOf h))"
proof -
  have ok: "store_ok hashOf (headerContainer c)"
    and st: "staged (headerContainer c) = set hs"
    using store_ok_batch_New [OF assms(1)] assms(2) by simp_all
  show ?thesis
  proof (cases "ReadHeaderNumber (headerContainer c) from")
    case None
    let ?xs = "map snd (headerTable (headerContainer c))"
    have "ReadHeaderSince c from = Some (map Some ?xs)"
      using None by (simp add: ReadHeaderSince_absent readAllHeaders_ok [OF ok])
    moreover have "sorted (map Number ?xs)" by (rule store_ok_sorted_numbers [OF ok])
    moreover have "set ?xs = set hs" using st by (simp add: staged_def)
    ultimately have "ReadHeaderSince c from = Some (map Some ?xs) \<and> sorted (map Number ?xs) \<and>
           set ?xs \<subseteq> set hs \<and>
           (ReadHeaderNumber (headerContainer c) from = None \<longrightarrow> set ?xs = set hs) \<and>
           (ReadHeaderNumber (headerContainer c) from \<noteq> None \<longrightarrow>
              distinct (map Number ?xs) \<and>
              (\<forall>x \<in> set ?xs. \<forall>h \<in> set hs. Number h = Number x \<longrightarrow> hashOf x \<le> hashOf h))"
      using None by simp
    then show ?thesis by (rule exI)
  next
    case (Some k)
    have "\<exists>ys. ReadHeaderSince c from = Some ys"
    proof (cases "ReadHeaderNumber (headerContainer c) (ReadHeadHeaderHash (headerContainer c))")
      case None
      with Some show ?thesis by (simp add: ReadHeaderSince_def)
    next
      case n: (Some n)
      with Some assms(3) have "n \<noteq> - 1" by simp
      from ReadHeaderSince_range [OF Some n this] show ?thesis by simp
    qed
    then obtain ys where ys: "ReadHeaderSince c from = Some ys" ..
    from ReadHeaderSince_ordered [OF ok ys] Some obtain xs where
      xs: "ys = map Some xs" "sorted (map Number xs)" "set xs \<subseteq> staged (headerContainer c)"
        "distinct (map Number xs)"
      by auto
    have first: "hashOf x \<le> hashOf h" if x: "x \<in> set xs" and h: "h \<in> set hs" "Number h = Number x" for x h
    proof -
      have "\<exists>j. readHeader c j = Some x"
      proof (cases "ReadHeaderNumber (headerContainer c) (ReadHeadHeaderHash (headerContainer c))")
        case None
        with Some ys xs(1) x show ?thesis by (simp add: ReadHeaderSince_def)
      next
        case n: (Some n)
        with Some assms(3) have "n \<noteq> - 1" by simp
        from ReadHeaderSince_range [OF Some n this] ys xs(1)
        have "map Some xs = map Some (List.map_filter (readHeader c) (numbers_between k n))" by simp
        then have "xs = List.map_filter (readHeader c) (numbers_between k n)"
          by simp
        with x show ?thesis by (auto simp: List.map_filter_def)
      qed
      then obtain j where j: "readHeader c j = Some x" ..
      from readHeader_Some(1) [OF ok j] h(2) have "Number h = j" by simp
      with readHeader_first_in_key_order [OF ok j] h(1) st show ?thesis by simp
    qed
    show ?thesis
      using ys xs st Some first by (intro exI [of _ xs]) auto
  qed
qed

theorem ReadHeaderSince_non_decreasing_witness:
  "inj_on sampleHash (set [\<lparr>Number = 5, Extra = 1\<rparr>, \<lparr>Number = 5, Extra = 2\<rparr>, \<lparr>Number = 7, Extra = 3\<rparr>])
   \<and> ReadHeaderNumber (headerContainer (WriteHeaderBatch sampleHash NewPandoraPendingHeaderContainer
        [\<lparr>Number = 5, Extra = 1\<rparr>, \<lparr>Number = 5, Extra = 2\<rparr>, \<lparr>Number = 7, Extra = 3\<rparr>]))
        (sampleHash \<lparr>Number = 5, Extra = 2\<rparr>) = Some 5
   \<and> ReadHeaderNumber (headerContainer (WriteHeaderBatch sampleHash NewPandoraPendingHeaderContainer
        [\<lparr>Number = 5, Extra = 1\<rparr>, \<lparr>Number = 5, Extra = 2\<rparr>, \<lparr>Number = 7, Extra = 3\<rparr>]))
        (ReadHeadHeaderHash (headerContainer (WriteHeaderBatch sampleHash NewPandoraPendingHeaderContainer
        [\<lparr>Number = 5, Extra = 1\<rparr>, \<lparr>Number = 5, Extra = 2\<rparr>, \<lparr>Number = 7, Extra = 3\<rparr>]))) = Some 7
   \<and> ReadHeaderSince (WriteHeaderBatch sampleHash NewPandoraPendingHeaderContainer
        [\<lparr>Number = 5, Extra = 1\<rparr>, \<lparr>Number = 5, Extra = 2\<rparr>, \<lparr>Number = 7, Extra = 3\<rparr>])
        (sampleHash \<lparr>Number = 5, Extra = 2\<rparr>)
      = Some [Some \<lparr>Number = 5, Extra = 1\<rparr>, Some \<lparr>Number = 7, Extra = 3\<rparr>]
   \<and> sampleHash \<lparr>Number = 5, Extra = 1\<rparr> \<le> sampleHash \<lparr>Number = 5, Extra = 2\<rparr>
   \<and> (\<exists>xs. ReadHeaderSince (WriteHeaderBatch sampleHash NewPandoraPendingHeaderContainer
        [\<lparr>Number = 5, Extra = 1\<rparr>, \<lparr>Number = 5, Extra = 2\<rparr>, \<lparr>Number = 7, Extra = 3\<rparr>])
        (sampleHash \<lparr>Number = 5, Extra = 2\<rparr>) = Some (map Some xs)
        \<and> sorted (map Number xs) \<and> distinct (map Number xs)
        \<and> (\<forall>x \<in> set xs.
              \<forall>h \<in> set [\<lparr>Number = 5, Extra = 1\<rparr>, \<lparr>Number = 5, Extra = 2\<rparr>, \<lparr>Number = 7, Extra = 3\<rparr>].
                Number h = Number x \<longrightarrow> sampleHash x \<le> sampleHash h))"
proof -
  let ?hs = "[\<lparr>Number = 5, Extra = 1\<rparr>, \<lparr>Number = 5, Extra = 2\<rparr>, \<lparr>Number = 7, Extra = 3\<rparr>]"
  let ?c = "WriteHeaderBatch sampleHash NewPandoraPendingHeaderContainer ?hs"
  let ?from = "sampleHash \<lparr>Number = 5, Extra = 2\<rparr>"
  have inj: "inj_on sampleHash (set ?hs)"
    by (simp add: sampleHash_def)
  have k: "ReadHeaderNumber (headerContainer ?c) ?from = Some 5"
    by (simp add: container_defs)
  have n: "ReadHeaderNumber (headerContainer ?c) (ReadHeadHeaderHash (headerContainer ?c)) = Some 7"
    by (simp add: container_defs)
  have side: "ReadHeaderNumber (headerContainer ?c) ?from = None
     \<or> ReadHeaderNumber (headerContainer ?c) (ReadHeadHeaderHash (headerContainer ?c)) \<noteq> Some (- 1)"
    by (simp only: n) simp
  have run: "ReadHeaderSince ?c ?from
      = Some [Some \<lparr>Number = 5, Extra = 1\<rparr>, Some \<lparr>Number = 7, Extra = 3\<rparr>]"
    by (simp add: ReadHeaderSince_def ReadHeaderSince_loop_returns numbers_between_def
          container_defs upt_rec)
  have tie: "sampleHash \<lparr>Number = 5, Extra = 1\<rparr> \<le> sampleHash \<lparr>Number = 5, Extra = 2\<rparr>"
    by (simp add: sampleHash_def)
  from ReadHeaderSince_non_decreasing [OF inj refl side] obtain xs where
    xs: "ReadHeaderSince ?c ?from = Some (map Some xs)"
      "sorted (map Number xs)"
      "ReadHeaderNumber (headerContainer ?c) ?from \<noteq> None \<longrightarrow>
         distinct (map Number xs) \<and>
         (\<forall>x \<in> set xs. \<forall>h \<in> set ?hs. Number h = Number x \<longrightarrow> sampleHash x \<le> sampleHash h)"
    by blast
  from xs(3) k have "distinct (map Number xs) \<and>
         (\<forall>x \<in> set xs. \<forall>h \<in> set ?hs. Number h = Number x \<longrightarrow> sampleHash x \<le> sampleHash h)"
    by simp
  with xs(1,2) have ex: "\<exists>xs. ReadHeaderSince ?c ?from = Some (map Some xs)
      \<and> sorted (map Number xs) \<and> distinct (map Number xs)
      \<and> (\<forall>x \<in> set xs. \<forall>h \<in> set ?hs. Number h = Number x \<longrightarrow> sampleHash x \<le> sampleHash h)"
    by blast
  show ?thesis by (intro conjI) (fact inj k n run tie ex)+
qed

text \<open>
  The claim as stated fails on the full-snapshot branch: two staged headers with the
  number 5 are both returned.
\<close>

theorem ReadHeaderSince_snapshot_same_number_counterexample:
  "ReadHeaderSince (WriteHeaderBatch sampleHash NewPandoraPendingHeaderContainer
        [\<lparr>Number = 5, Extra = 1\<rparr>, \<lparr>Number = 5, Extra = 2\<rparr>]) 0
      = Some [Some \<lparr>Number = 5, Extra = 1\<rparr>, Some \<lparr>Number = 5, Extra = 2\<rparr>]"
  by (simp add: ReadHeaderSince_def container_defs)

text \<open>
  C9. After \<open>WriteHeaderBatch\<close> of a non-empty batch on any container the head is the
  hash of the last header, the number of every header of the batch resolves, the head
  resolves to a stored header, and a store in which every stored header's hash has a known
  number stays so.
\<close>

theorem WriteHeaderBatch_head_and_numbers:
  assumes "hs \<noteq> []"
  shows "ReadHeadHeaderHash (headerContainer (WriteHeaderBatch hashOf c hs)) = hashOf (last hs)
    \<and> (\<forall>h \<in> set hs. ReadHeaderNumber (headerContainer (WriteHeaderBatch hashOf c hs)) (hashOf h) \<noteq> None)
    \<and> ReadHeaderNumber (headerContainer (WriteHeaderBatch hashOf c hs)) (hashOf (last hs))
        = Some (Number (last hs))
    \<and> ReadHeader (headerContainer (WriteHeaderBatch hashOf c hs)) (hashOf (last hs)) (Number (last hs))
        = Some (last hs)
    \<and> (indexed (headerContainer c) \<longrightarrow> indexed (headerContainer (WriteHeaderBatch hashOf c hs)))"
proof -
  from assms obtain xs x where hs: "hs = xs @ [x]"
    by (metis append_butlast_last_id)
  let ?c = "WriteHeaderBatch hashOf c xs"
  have b: "WriteHeaderBatch hashOf c hs = WriteHeader hashOf ?c x"
    by (simp add: hs WriteHeaderBatch_append)
  have "ReadHeaderNumber (headerContainer (WriteHeaderBatch hashOf c hs)) (hashOf h) \<noteq> None"
    if "h \<in> set hs" for h
  proof -
    from that obtain ys zs where "hs = ys @ h # zs" by (auto simp: in_set_conv_decomp)
    then have "WriteHeaderBatch hashOf c hs
        = WriteHeaderBatch hashOf (WriteHeader hashOf (WriteHeaderBatch hashOf c ys) h) zs"
      by (simp add: WriteHeaderBatch_append)
    then show ?thesis
      by (simp add: WriteHeaderBatch_keeps_numbers WriteHeader_reads(1))
  qed
  then have all: "\<forall>h \<in> set hs.
      ReadHeaderNumber (headerContainer (WriteHeaderBatch hashOf c hs)) (hashOf h) \<noteq> None"
    by blast
  have l: "last hs = x" by (simp add: hs)
  show ?thesis
    using all indexed_WriteHeaderBatch [of c hashOf hs]
    by (simp only: l) (simp add: b WriteHeader_reads)
qed

theorem WriteHeaderBatch_head_and_numbers_witness:
  "[\<lparr>Number = 5, Extra = 1\<rparr>, \<lparr>Number = 7, Extra = 3\<rparr>] \<noteq> []
   \<and> ReadHeadHeaderHash (headerContainer (WriteHeaderBatch sampleHash NewPandoraPendingHeaderContainer
        [\<lparr>Number = 5, Extra = 1\<rparr>, \<lparr>Number = 7, Extra = 3\<rparr>]))
      = sampleHash \<lparr>Number = 7, Extra = 3\<rparr>
   \<and> ReadHeaderNumber (headerContainer (WriteHeaderBatch sampleHash NewPandoraPendingHeaderContainer
        [\<lparr>Number = 5, Extra = 1\<rparr>, \<lparr>Number = 7, Extra = 3\<rparr>])) (sampleHash \<lparr>Number = 5, Extra = 1\<rparr>)
      \<noteq> None
   \<and> indexed (headerContainer (WriteHeaderBatch sampleHash NewPandoraPendingHeaderContainer
        [\<lparr>Number = 5, Extra = 1\<rparr>, \<lparr>Number = 7, Extra = 3\<rparr>]))"
proof -
  have ne: "[\<lparr>Number = 5, Extra = 1\<rparr>, \<lparr>Number = 7, Extra = 3\<rparr>] \<noteq> []" by simp
  have start: "indexed (headerContainer NewPandoraPendingHeaderContainer)"
    by (simp add: indexed_def container_defs)
  show ?thesis
    using WriteHeaderBatch_head_and_numbers [OF ne, of sampleHash NewPandoraPendingHeaderContainer] start by simp
qed

text \<open>
  C10. Writing a header twice in a row leaves the container as writing it once does, so
  every later read gives the same result; and in a container built by writes with a
  collision-free digest no header appears twice in a sequence \<open>ReadHeaderSince\<close>
  returns.
\<close>

theorem WriteHeader_idempotent:
  "WriteHeader hashOf (WriteHeader hashOf c h) h = WriteHeader hashOf c h
   \<and> (c = WriteHeaderBatch hashOf NewPandoraPendingHeaderContainer hs \<longrightarrow>
      inj_on hashOf (set (h # hs)) \<longrightarrow>
      ReadHeaderSince (WriteHeader hashOf (WriteHeader hashOf c h) h) from = Some ys \<longrightarrow>
        distinct ys)"
proof (intro conjI impI)
  show same: "WriteHeader hashOf (WriteHeader hashOf c h) h = WriteHeader hashOf c h"
    by (simp add: WriteHeader_def rawdb_WriteHeader_def WriteHeadHeaderHash_def table_put_idem)
  assume c: "c = WriteHeaderBatch hashOf NewPandoraPendingHeaderContainer hs"
    and inj: "inj_on hashOf (set (h # hs))"
    and r: "ReadHeaderSince (WriteHeader hashOf (WriteHeader hashOf c h) h) from = Some ys"
  have "WriteHeader hashOf c h = WriteHeaderBatch hashOf NewPandoraPendingHeaderContainer (hs @ [h])"
    by (simp add: c WriteHeaderBatch_append)
  moreover have "inj_on hashOf (set (hs @ [h]))" using inj by simp
  ultimately have ok: "store_ok hashOf (headerContainer (WriteHeader hashOf c h))"
    using store_ok_batch_New(1) by metis
  from r have "ReadHeaderSince (WriteHeader hashOf c h) from = Some ys" by (simp only: same)
  from ReadHeaderSince_ordered [OF ok this] show "distinct ys"
    by (auto simp: distinct_map)
qed

theorem WriteHeader_idempotent_witness:
  "WriteHeaderBatch sampleHash NewPandoraPendingHeaderContainer [\<lparr>Number = 5, Extra = 1\<rparr>]
     = WriteHeaderBatch sampleHash NewPandoraPendingHeaderContainer [\<lparr>Number = 5, Extra = 1\<rparr>]
   \<and> inj_on sampleHash (set [\<lparr>Number = 7, Extra = 3\<rparr>, \<lparr>Number = 5, Extra = 1\<rparr>])
   \<and> ReadHeaderSince (WriteHeader sampleHash (WriteHeader sampleHash
        (WriteHeaderBatch sampleHash NewPandoraPendingHeaderContainer [\<lparr>Number = 5, Extra = 1\<rparr>])
        \<lparr>Number = 7, Extra = 3\<rparr>) \<lparr>Number = 7, Extra = 3\<rparr>) 0
      = Some [Some \<lparr>Number = 5, Extra = 1\<rparr>, Some \<lparr>Number = 7, Extra = 3\<rparr>]
   \<and> distinct [Some \<lparr>Number = 5, Extra = 1\<rparr>, Some \<lparr>Number = 7, Extra = 3\<rparr>]"
proof -
  have inj: "inj_on sampleHash (set [\<lparr>Number = 7, Extra = 3\<rparr>, \<lparr>Number = 5, Extra = 1\<rparr>])"
    by (simp add: sampleHash_def)
  have run: "ReadHeaderSince (WriteHeader sampleHash (WriteHeader sampleHash
        (WriteHeaderBatch sampleHash NewPandoraPendingHeaderContainer [\<lparr>Number = 5, Extra = 1\<rparr>])
        \<lparr>Number = 7, Extra = 3\<rparr>) \<lparr>Number = 7, Extra = 3\<rparr>) 0
      = Some [Some \<lparr>Number = 5, Extra = 1\<rparr>, Some \<lparr>Number = 7, Extra = 3\<rparr>]"
    by (simp add: ReadHeaderSince_def container_defs)
  from WriteHeader_idempotent [of sampleHash "WriteHeaderBatch sampleHash NewPandoraPendingHeaderContainer [\<lparr>Number = 5, Extra = 1\<rparr>]"
      "\<lparr>Number = 7, Extra = 3\<rparr>" "[\<lparr>Number = 5, Extra = 1\<rparr>]" 0
      "[Some \<lparr>Number = 5, Extra = 1\<rparr>, Some \<lparr>Number = 7, Extra = 3\<rparr>]"]
  have "distinct [Some \<lparr>Number = 5, Extra = 1\<rparr>, Some \<lparr>Number = 7, Extra = 3\<rparr>]"
    using inj run by blast
  then show ?thesis using inj run by simp
qed

end
